theory Spec2Isabelle
  imports Complex_Main
begin

section \<open>Cards (card.py)\<close>

text \<open>
  A card is a rank and a suit. The source keeps both as strings and refuses every string
  outside \<open>Card.RANKS\<close> and \<open>Card.SUITS\<close> at construction, so the cards that exist are
  exactly the values of the two enumerations below.
\<close>

datatype suit = Hearts | Diamonds | Clubs | Spades

datatype rank = Two | Three | Four | Five | Six | Seven | Eight | Nine | Ten
  | Jack | Queen | King | Ace

record card =
  rank :: rank
  suit :: suit

definition RANKS :: "rank list" where
  "RANKS = [Two, Three, Four, Five, Six, Seven, Eight, Nine, Ten, Jack, Queen, King, Ace]"

text \<open>\<open>list.index\<close>: the position of the first occurrence. Every rank occurs in
  \<open>RANKS\<close>, so the \<open>ValueError\<close> of a missing element cannot arise for a card.\<close>

fun list_index :: "'a list \<Rightarrow> 'a \<Rightarrow> nat" where
  "list_index [] x = 0"
| "list_index (y # ys) x = (if y = x then 0 else Suc (list_index ys x))"

definition get_value :: "card \<Rightarrow> int" where
  "get_value c = int (list_index RANKS (rank c))"

section \<open>Players (player.py)\<close>

text \<open>
  \<open>Player\<close> is an abstract class with the two subclasses \<open>HumanPlayer\<close> and \<open>AIPlayer\<close>;
  the subclass, with the aggression an \<open>AIPlayer\<close> carries, is the field \<open>kind\<close>.
  Python integers are unbounded: \<open>int\<close>. Python floats are modelled as exact rationals:
  the development is about the formulas and the control flow of the decision procedure,
  not about binary rounding.
\<close>

datatype player_class = HumanPlayer | AIPlayer rat

record player =
  name :: string
  chips :: int
  hand :: "card list"
  current_bet :: int
  has_folded :: bool
  is_all_in :: bool
  kind :: player_class

definition Player_init :: "player_class \<Rightarrow> string \<Rightarrow> int \<Rightarrow> player" where
  "Player_init k n c =
     \<lparr>name = n, chips = c, hand = [], current_bet = 0, has_folded = False,
      is_all_in = False, kind = k\<rparr>"

definition AIPlayer_init :: "string \<Rightarrow> int \<Rightarrow> rat \<Rightarrow> player" where
  "AIPlayer_init n c aggression = Player_init (AIPlayer (max 0 (min 1 aggression))) n c"

definition reset_for_new_hand :: "player \<Rightarrow> player" where
  "reset_for_new_hand p =
     p\<lparr>hand := [], current_bet := 0, has_folded := False, is_all_in := False\<rparr>"

definition add_card :: "player \<Rightarrow> card \<Rightarrow> player" where
  "add_card p c = p\<lparr>hand := hand p @ [c]\<rparr>"

text \<open>\<open>place_bet\<close> returns the amount committed together with the updated player.\<close>

definition place_bet :: "player \<Rightarrow> int \<Rightarrow> int \<times> player" where
  "place_bet p amount =
     (if amount \<ge> chips p
      then (chips p, p\<lparr>is_all_in := True, chips := 0,
                        current_bet := current_bet p + chips p\<rparr>)
      else (amount, p\<lparr>chips := chips p - amount,
                       current_bet := current_bet p + amount\<rparr>))"

definition fold_hand :: "player \<Rightarrow> player" where
  "fold_hand p = p\<lparr>has_folded := True\<rparr>"

definition can_bet :: "player \<Rightarrow> bool" where
  "can_bet p = (chips p > 0 \<and> \<not> has_folded p \<and> \<not> is_all_in p)"

section \<open>The automated decision policy (player.py, class AIPlayer)\<close>

text \<open>A decision is the pair the source returns: the action and an amount.\<close>

datatype action = Fold | Call | Raise

type_synonym decision = "action \<times> int"

definition call_amount :: "player \<Rightarrow> int \<Rightarrow> int" where
  "call_amount p cb = (if cb > current_bet p then cb - current_bet p else 0)"

text \<open>\<open>_evaluate_hand_strength\<close>; \<open>values.sort(reverse=True)\<close> is the descending sort.\<close>

definition evaluate_hand_strength :: "player \<Rightarrow> rat" where
  "evaluate_hand_strength p =
     (if length (hand p) < 2 then 1 / 2
      else
        let values = rev (sort (map get_value (hand p))) in
        if length values \<ge> 2 \<and> values ! 0 = values ! 1
        then 7 / 10 + (of_int (values ! 0) / of_nat (length RANKS)) * (3 / 10)
        else 3 / 10 + (of_int (values ! 0) / of_nat (length RANKS)) * (4 / 10))"

text \<open>Python's \<open>int(x)\<close> on a float truncates towards zero.\<close>

definition py_int :: "rat \<Rightarrow> int" where
  "py_int x = (if x \<ge> 0 then \<lfloor>x\<rfloor> else \<lceil>x\<rceil>)"

definition bet_ratio :: "player \<Rightarrow> int \<Rightarrow> rat" where
  "bet_ratio p cb = of_int (call_amount p cb) / of_int (max (chips p) 1)"

definition fold_threshold :: "player \<Rightarrow> int \<Rightarrow> rat" where
  "fold_threshold p cb = 2 / 10 + bet_ratio p cb * (3 / 10)"

definition raise_threshold :: "rat \<Rightarrow> rat" where
  "raise_threshold aggression = 6 / 10 + (4 / 10 - aggression * (4 / 10))"

text \<open>The raise branch of \<open>make_decision\<close>: the two assignments to \<open>raise_amount\<close>.\<close>

definition raise_amount :: "rat \<Rightarrow> player \<Rightarrow> int \<Rightarrow> int \<Rightarrow> int" where
  "raise_amount aggression p cb minimum_bet =
     (let max_raise = chips p - call_amount p cb;
          raise_multiplier = aggression * evaluate_hand_strength p;
          r = min (py_int (of_int minimum_bet * (1 + raise_multiplier * 3))) max_raise
      in max r minimum_bet)"

definition AIPlayer_make_decision :: "rat \<Rightarrow> player \<Rightarrow> int \<Rightarrow> int \<Rightarrow> decision" where
  "AIPlayer_make_decision aggression p cb minimum_bet =
     (if evaluate_hand_strength p < fold_threshold p cb \<and> call_amount p cb > 0
      then (Fold, 0)
      else if evaluate_hand_strength p > raise_threshold aggression
              \<and> chips p > call_amount p cb + minimum_bet
      then (Raise, call_amount p cb + raise_amount aggression p cb minimum_bet)
      else (Call, call_amount p cb))"




definition top_value :: "player \<Rightarrow> int" where
  "top_value p = Max (set (map get_value (hand p)))"

section \<open>The game (poker_game.py)\<close>

text \<open>
  The fields of \<open>PokerGame\<close> that the betting round and the showdown read or write. The
  deck and the dealer position are used by neither. The table's \<open>current_bet\<close> is the
  field \<open>game_current_bet\<close>, since a player has a field \<open>current_bet\<close> as well.
  Players are objects compared by identity: a player is its seat, the index in \<open>players\<close>.
\<close>

record game =
  players :: "player list"
  pot :: int
  game_current_bet :: int
  minimum_bet :: int

text \<open>
  \<open>player.make_decision(current_bet, minimum_bet)\<close> is a method of an object that may
  read input or keep a state of its own (a console, a scripted test double). A policy
  takes that environment, the seat, the player, the table's current bet and the minimum
  bet, and returns the decision and the new environment.
\<close>

type_synonym 's policy = "'s \<Rightarrow> nat \<Rightarrow> player \<Rightarrow> int \<Rightarrow> int \<Rightarrow> decision \<times> 's"

text \<open>Dynamic dispatch: an \<open>AIPlayer\<close> decides by its own method, a \<open>HumanPlayer\<close>
  through the environment.\<close>

definition make_decision :: "'s policy \<Rightarrow> 's policy" where
  "make_decision human e i p cb mb =
     (case kind p of
        AIPlayer aggression \<Rightarrow> (AIPlayer_make_decision aggression p cb mb, e)
      | HumanPlayer \<Rightarrow> human e i p cb mb)"


subsection \<open>The betting round\<close>

text \<open>The local variables of \<open>betting_round\<close>, with the game and the environment of
  the policy. (\<open>all_called\<close> is written and never read; it is left out.)\<close>

record 's round_state =
  game :: game
  last_raiser :: "nat option"
  players_acted :: "nat set"
  round_had_action :: bool
  env :: 's

definition has_matched :: "game \<Rightarrow> player \<Rightarrow> bool" where
  "has_matched g p = (current_bet p = game_current_bet g \<or> has_folded p \<or> is_all_in p)"

definition needs_to_act :: "'s round_state \<Rightarrow> nat \<Rightarrow> bool" where
  "needs_to_act st i =
     (current_bet (players (game st) ! i) < game_current_bet (game st)
      \<or> last_raiser st = Some i
      \<or> (game_current_bet (game st) = 0 \<and> i \<notin> players_acted st))"

text \<open>\<open>all(... for p in self.players if p != player)\<close>\<close>

definition others_matched :: "game \<Rightarrow> nat \<Rightarrow> bool" where
  "others_matched g i =
     list_all (\<lambda>j. has_matched g (players g ! j))
       (filter (\<lambda>j. j \<noteq> i) [0..<length (players g)])"

definition set_player :: "game \<Rightarrow> nat \<Rightarrow> player \<Rightarrow> game" where
  "set_player g i p = g\<lparr>players := (players g)[i := p]\<rparr>"

text \<open>The three branches on the decision, after the player was added to
  \<open>players_acted\<close> and \<open>round_had_action\<close> was set.\<close>

definition apply_decision :: "decision \<Rightarrow> nat \<Rightarrow> 's round_state \<Rightarrow> 's round_state" where
  "apply_decision d i st =
     (let g = game st; p = players g ! i in
      case d of
        (Fold, amount) \<Rightarrow> st\<lparr>game := set_player g i (fold_hand p)\<rparr>
      | (Call, amount) \<Rightarrow>
          if amount > 0
          then let (actual_bet, p') = place_bet p amount
               in st\<lparr>game := (set_player g i p')\<lparr>pot := pot g + actual_bet\<rparr>\<rparr>
          else st
      | (Raise, amount) \<Rightarrow>
          let (actual_bet, p') = place_bet p amount
          in st\<lparr>game := (set_player g i p')
                     \<lparr>pot := pot g + actual_bet, game_current_bet := current_bet p'\<rparr>,
                 last_raiser := Some i,
                 players_acted := {i}\<rparr>)"

definition take_turn :: "'s policy \<Rightarrow> nat \<Rightarrow> 's round_state \<Rightarrow> 's round_state" where
  "take_turn pol i st =
     (let g = game st;
          (d, e') = pol (env st) i (players g ! i) (game_current_bet g) (minimum_bet g)
      in apply_decision d i
           (st\<lparr>env := e', players_acted := insert i (players_acted st),
               round_had_action := True\<rparr>))"

definition not_folded :: "game \<Rightarrow> player list" where
  "not_folded g = filter (\<lambda>p. \<not> has_folded p) (players g)"

definition active_betting_players :: "game \<Rightarrow> player list" where
  "active_betting_players g = filter (\<lambda>p. \<not> has_folded p \<and> \<not> is_all_in p) (players g)"

text \<open>
  One pass of \<open>for player in self.players\<close> over the seats still to visit. \<open>Returned\<close> is
  the \<open>return\<close> of the fold-out check, \<open>Swept\<close> the normal end of the pass. The two
  \<open>continue\<close> statements (a folded or all-in player; the last raiser whom everybody else
  has matched) skip the fold-out check.
\<close>

datatype 's sweep_result = Returned "'s round_state" | Swept "'s round_state"

fun sweep :: "'s policy \<Rightarrow> nat list \<Rightarrow> 's round_state \<Rightarrow> 's sweep_result" where
  "sweep pol [] st = Swept st"
| "sweep pol (i # seats) st =
     (if has_folded (players (game st) ! i) \<or> is_all_in (players (game st) ! i)
      then sweep pol seats st
      else if needs_to_act st i \<and> last_raiser st = Some i \<and> others_matched (game st) i
      then sweep pol seats st
      else
        let st' = (if needs_to_act st i then take_turn pol i st else st) in
        if length (not_folded (game st')) \<le> 1 then Returned st'
        else sweep pol seats st')"

text \<open>The test at the end of a pass.\<close>

definition betting_complete :: "'s round_state \<Rightarrow> bool" where
  "betting_complete st =
     (if length (active_betting_players (game st)) \<le> 1 then True
      else if \<not> round_had_action st then True
      else list_all (has_matched (game st)) (players (game st)))"

text \<open>The \<open>while not betting_complete\<close> loop. It may run forever, so it takes fuel: the
  number of passes it may make. \<open>None\<close> means the fuel ran out.\<close>

fun betting_loop :: "nat \<Rightarrow> 's policy \<Rightarrow> 's round_state \<Rightarrow> 's round_state option" where
  "betting_loop 0 pol st = None"
| "betting_loop (Suc n) pol st =
     (case sweep pol [0..<length (players (game st))] (st\<lparr>round_had_action := False\<rparr>) of
        Returned st' \<Rightarrow> Some st'
      | Swept st' \<Rightarrow> if betting_complete st' then Some st' else betting_loop n pol st')"

definition initial_round_state :: "'s \<Rightarrow> game \<Rightarrow> 's round_state" where
  "initial_round_state e g =
     \<lparr>game = g, last_raiser = None, players_acted = {}, round_had_action = False, env = e\<rparr>"

definition betting_round :: "nat \<Rightarrow> 's policy \<Rightarrow> 's \<Rightarrow> game \<Rightarrow> (game \<times> 's) option" where
  "betting_round fuel pol e g =
     (if length (active_betting_players g) \<le> 1 then Some (g, e)
      else map_option (\<lambda>st. (game st, env st))
             (betting_loop fuel pol (initial_round_state e g)))"

subsection \<open>The showdown\<close>

datatype error = ValueError | AttributeError

text \<open>\<open>max(card.get_value() for card in player.hand)\<close>: a \<open>ValueError\<close> on an empty hand.\<close>

fun max_card_value :: "card list \<Rightarrow> error + int" where
  "max_card_value [] = Inl ValueError"
| "max_card_value (c # cs) = Inr (fold max (map get_value cs) (get_value c))"

text \<open>The seats of the players who have not folded, in seating order.\<close>

definition active_seats :: "game \<Rightarrow> nat list" where
  "active_seats g = filter (\<lambda>i. \<not> has_folded (players g ! i)) [0..<length (players g)]"

text \<open>The loop over \<open>active_players\<close>, threading \<open>best_player\<close> and \<open>best_value\<close>.\<close>

fun best_of :: "game \<Rightarrow> nat list \<Rightarrow> nat option \<times> int \<Rightarrow> error + (nat option \<times> int)" where
  "best_of g [] acc = Inr acc"
| "best_of g (i # seats) (best_player, best_value) =
     (case max_card_value (hand (players g ! i)) of
        Inl e \<Rightarrow> Inl e
      | Inr max_value \<Rightarrow>
          if max_value > best_value then best_of g seats (Some i, max_value)
          else best_of g seats (best_player, best_value))"

definition award_pot :: "game \<Rightarrow> nat \<Rightarrow> game" where
  "award_pot g w = set_player g w ((players g ! w)\<lparr>chips := chips (players g ! w) + pot g\<rparr>)"

text \<open>With no player left, \<open>best_player\<close> stays \<open>None\<close> and \<open>best_player.name\<close> raises
  an \<open>AttributeError\<close>.\<close>

definition determine_winner :: "game \<Rightarrow> error + game" where
  "determine_winner g =
     (let active_players = active_seats g in
      if length active_players = 1 then Inr (award_pot g (active_players ! 0))
      else
        case best_of g active_players (None, - 1) of
          Inl e \<Rightarrow> Inl e
        | Inr (None, best_value) \<Rightarrow> Inl AttributeError
        | Inr (Some best_player, best_value) \<Rightarrow> Inr (award_pot g best_player))"

subsection \<open>Quantities of a table\<close>

definition total_chips :: "game \<Rightarrow> int" where
  "total_chips g = sum_list (map chips (players g))"

definition total_bets :: "game \<Rightarrow> int" where
  "total_bets g = sum_list (map current_bet (players g))"

definition new_game :: "player list \<Rightarrow> game" where
  "new_game ps = \<lparr>players = ps, pot = 0, game_current_bet = 0, minimum_bet = 10\<rparr>"

text \<open>A table of automated players: the human policy is never consulted.\<close>

definition no_human :: "unit policy" where
  "no_human e i p cb mb = ((Fold, 0), e)"

text \<open>What a betting action must leave unchanged: the chips on the table and in the
  stacks together, the part of the pot not accounted for by the players' bets, and the
  number of seats.\<close>

definition ledger :: "game \<Rightarrow> int \<times> int \<times> nat" where
  "ledger g = (total_chips g + total_bets g, pot g - total_bets g, length (players g))"

definition chips_nonneg :: "game \<Rightarrow> bool" where
  "chips_nonneg g = list_all (\<lambda>p. 0 \<le> chips p) (players g)"

fun sweep_state :: "'s sweep_result \<Rightarrow> 's round_state" where
  "sweep_state (Returned st) = st"
| "sweep_state (Swept st) = st"

subsection \<open>What a round can rely on\<close>

definition is_active :: "player \<Rightarrow> bool" where
  "is_active p = (\<not> has_folded p \<and> \<not> is_all_in p)"




text \<open>The player and the table's current bet after a decision was applied.\<close>

definition new_player :: "decision \<Rightarrow> player \<Rightarrow> player" where
  "new_player d p =
     (case d of
        (Fold, amount) \<Rightarrow> fold_hand p
      | (Call, amount) \<Rightarrow> if amount > 0 then snd (place_bet p amount) else p
      | (Raise, amount) \<Rightarrow> snd (place_bet p amount))"


section \<open>Example players\<close>

definition with_hand :: "player \<Rightarrow> card list \<Rightarrow> player" where
  "with_hand p cs = foldl add_card p cs"

definition pair_of_aces :: "card list" where
  "pair_of_aces = [\<lparr>rank = Ace, suit = Hearts\<rparr>, \<lparr>rank = Ace, suit = Spades\<rparr>]"

definition ace_king :: "card list" where
  "ace_king = [\<lparr>rank = Ace, suit = Hearts\<rparr>, \<lparr>rank = King, suit = Spades\<rparr>]"

definition two_three :: "card list" where
  "two_three = [\<lparr>rank = Two, suit = Clubs\<rparr>, \<lparr>rank = Three, suit = Diamonds\<rparr>]"

definition strong_player :: player where
  "strong_player = with_hand (AIPlayer_init ''Alice'' 1000 (1 / 2)) pair_of_aces"

definition short_stack :: player where
  "short_stack = with_hand (AIPlayer_init ''Bob'' 50 (1 / 2)) pair_of_aces"

lemmas example_defs =
  with_hand_def pair_of_aces_def ace_king_def two_three_def strong_player_def
  short_stack_def AIPlayer_init_def Player_init_def add_card_def

lemmas ai_defs =
  AIPlayer_make_decision_def raise_amount_def fold_threshold_def bet_ratio_def
  raise_threshold_def py_int_def call_amount_def evaluate_hand_strength_def
  get_value_def RANKS_def

section \<open>Example tables\<close>

definition ai :: "string \<Rightarrow> int \<Rightarrow> card list \<Rightarrow> player" where
  "ai n c h = with_hand (AIPlayer_init n c (1 / 2)) h"

text \<open>Three automated players with 1000 chips each at the start of a hand.\<close>

definition fresh_table :: game where
  "fresh_table =
     new_game [ai ''Alice'' 1000 pair_of_aces, ai ''Bob'' 1000 two_three,
               ai ''Charlie'' 1000 ace_king]"

text \<open>A large stack with a weak hand, and two stacks of 20 chips.\<close>

definition short_table :: game where
  "short_table =
     new_game [ai ''Alice'' 1000 two_three, ai ''Bob'' 20 pair_of_aces,
               ai ''Charlie'' 20 two_three]"

text \<open>A table on which the first player's bet of 100 is above the table's current bet
  of 0; no hand of \<open>play_hand\<close> starts like this.\<close>

definition uneven_table :: game where
  "uneven_table =
     new_game [(ai ''Alice'' 1000 two_three)\<lparr>current_bet := 100\<rparr>,
               ai ''Bob'' 25 pair_of_aces]"

text \<open>The fresh table after Alice raised by 24 and the other two called.\<close>

definition fresh_table_after :: game where
  "fresh_table_after =
     \<lparr>players = [(ai ''Alice'' 1000 pair_of_aces)\<lparr>chips := 976, current_bet := 24\<rparr>,
                 (ai ''Bob'' 1000 two_three)\<lparr>chips := 976, current_bet := 24\<rparr>,
                 (ai ''Charlie'' 1000 ace_king)\<lparr>chips := 976, current_bet := 24\<rparr>],
      pot = 72, game_current_bet = 24, minimum_bet = 10\<rparr>"


text \<open>Two stacks of 20 chips; the state after Alice went all-in.\<close>

definition duel_table :: game where
  "duel_table = new_game [ai ''Alice'' 20 pair_of_aces, ai ''Bob'' 20 two_three]"

definition duel_after_raise :: "unit round_state" where
  "duel_after_raise =
     \<lparr>game = \<lparr>players = [(ai ''Alice'' 20 pair_of_aces)
                            \<lparr>chips := 0, current_bet := 20, is_all_in := True\<rparr>,
                          ai ''Bob'' 20 two_three],
              pot = 20, game_current_bet = 20, minimum_bet = 10\<rparr>,
      last_raiser = Some 0, players_acted = {0}, round_had_action = True, env = ()\<rparr>"



text \<open>Two players without cards, and a table where everybody but a player without
  cards has folded.\<close>

definition no_cards_table :: game where
  "no_cards_table =
     new_game [AIPlayer_init ''Alice'' 1000 (1 / 2), AIPlayer_init ''Bob'' 1000 (1 / 2)]"

definition last_standing_table :: game where
  "last_standing_table =
     (new_game [AIPlayer_init ''Alice'' 1000 (1 / 2),
                fold_hand (AIPlayer_init ''Bob'' 1000 (1 / 2))])\<lparr>pot := 100\<rparr>"

lemmas table_defs =
  ai_def fresh_table_def short_table_def uneven_table_def new_game_def

lemmas round_defs =
  betting_round_def initial_round_state_def active_betting_players_def not_folded_def
  betting_complete_def needs_to_act_def others_matched_def has_matched_def
  take_turn_def apply_decision_def set_player_def place_bet_def fold_hand_def
  make_decision_def no_human_def

section \<open>Bet placement\<close>

text \<open>
  C1. For every player with non-negative chips and every non-negative amount:
  if the amount is at least the chips, \<open>place_bet\<close> sets \<open>is_all_in\<close>, sets the chips to 0
  and returns the prior chips; otherwise it deducts the amount from the chips and returns
  the amount unchanged. In both cases the returned value is added to \<open>current_bet\<close>.
\<close>

theorem place_bet_behaviour:
  assumes "0 \<le> chips p" and "0 \<le> amount"
  shows "(amount \<ge> chips p \<longrightarrow>
            fst (place_bet p amount) = chips p
          \<and> is_all_in (snd (place_bet p amount))
          \<and> chips (snd (place_bet p amount)) = 0)
       \<and> (amount < chips p \<longrightarrow>
            fst (place_bet p amount) = amount
          \<and> chips (snd (place_bet p amount)) = chips p - amount
          \<and> is_all_in (snd (place_bet p amount)) = is_all_in p)
       \<and> current_bet (snd (place_bet p amount)) = current_bet p + fst (place_bet p amount)
       \<and> name (snd (place_bet p amount)) = name p
       \<and> hand (snd (place_bet p amount)) = hand p
       \<and> has_folded (snd (place_bet p amount)) = has_folded p"
  by (simp add: place_bet_def)

theorem place_bet_behaviour_witness:
  "fst (place_bet (AIPlayer_init ''TestAI'' 50 (1/2)) 100) = 50
   \<and> is_all_in (snd (place_bet (AIPlayer_init ''TestAI'' 50 (1/2)) 100))
   \<and> chips (snd (place_bet (AIPlayer_init ''TestAI'' 50 (1/2)) 100)) = 0
   \<and> current_bet (snd (place_bet (AIPlayer_init ''TestAI'' 50 (1/2)) 100)) = 50"
  using place_bet_behaviour [of "AIPlayer_init ''TestAI'' 50 (1/2)" 100]
  by (simp add: AIPlayer_init_def Player_init_def)

section \<open>Conservation of chips\<close>

lemma sum_list_map_update:
  fixes f :: "'a \<Rightarrow> int"
  assumes "i < length xs"
  shows "sum_list (map f (xs[i := y])) = sum_list (map f xs) - f (xs ! i) + f y"
  using assms by (induction xs arbitrary: i) (auto split: nat.splits)

lemma length_apply_decision:
  "length (players (game (apply_decision d i st))) = length (players (game st))"
  by (cases d; cases "fst d")
    (simp_all add: apply_decision_def set_player_def Let_def split: prod.splits)

lemma length_take_turn:
  "length (players (game (take_turn pol i st))) = length (players (game st))"
  by (simp add: take_turn_def Let_def length_apply_decision split: prod.splits)

text \<open>A property that every turn preserves holds after a pass, and after the round.\<close>

lemma sweep_invariant:
  assumes step: "\<And>i st. P st \<Longrightarrow> i < length (players (game st)) \<Longrightarrow> P (take_turn pol i st)"
    and "P st" and "\<forall>i\<in>set seats. i < length (players (game st))"
  shows "P (sweep_state (sweep pol seats st))"
  using assms(2,3)
proof (induction seats arbitrary: st)
  case Nil
  then show ?case by simp
next
  case (Cons i seats)
  have i: "i < length (players (game st))" using Cons.prems by simp
  have r1: "P (sweep_state (sweep pol seats st))"
    using Cons.IH [of st] Cons.prems by simp
  have t: "P (take_turn pol i st)" using step Cons.prems(1) i by blast
  have r2: "P (sweep_state (sweep pol seats (take_turn pol i st)))"
    using Cons.IH [OF t] Cons.prems(2) by (simp add: length_take_turn)
  show ?case
    using r1 r2 t Cons.prems(1) by (simp add: Let_def)
qed

lemma betting_loop_invariant:
  assumes step: "\<And>i st. P st \<Longrightarrow> i < length (players (game st)) \<Longrightarrow> P (take_turn pol i st)"
    and flag: "\<And>st. P st \<Longrightarrow> P (st\<lparr>round_had_action := False\<rparr>)"
    and "P st" and "betting_loop n pol st = Some st'"
  shows "P st'"
  using assms(3,4)
proof (induction n arbitrary: st)
  case 0
  then show ?case by simp
next
  case (Suc n)
  let ?r = "sweep pol [0..<length (players (game st))] (st\<lparr>round_had_action := False\<rparr>)"
  have l: "P (sweep_state ?r)"
    by (rule sweep_invariant [where P = P, OF step flag [OF Suc.prems(1)]]) simp_all
  show ?case
  proof (cases ?r)
    case (Returned s)
    with Suc.prems l show ?thesis by simp
  next
    case (Swept s)
    show ?thesis
    proof (cases "betting_complete s")
      case True
      with Suc.prems Swept l show ?thesis by simp
    next
      case False
      with Suc.prems Swept have "betting_loop n pol s = Some st'" by simp
      moreover have "P s" using l Swept by simp
      ultimately show ?thesis using Suc.IH by blast
    qed
  qed
qed

lemma ledger_apply_decision:
  assumes "i < length (players (game st))"
  shows "ledger (game (apply_decision d i st)) = ledger (game st)"
proof (cases d)
  case (Pair a amount)
  show ?thesis
    using assms
    by (cases a)
      (simp_all add: Pair apply_decision_def ledger_def Let_def place_bet_def fold_hand_def
        total_chips_def total_bets_def set_player_def sum_list_map_update
        split: prod.splits)
qed

lemma ledger_take_turn:
  assumes "i < length (players (game st))"
  shows "ledger (game (take_turn pol i st)) = ledger (game st)"
  using ledger_apply_decision [OF assms [unfolded length_take_turn]]
  by (simp add: take_turn_def Let_def ledger_apply_decision assms split: prod.splits)

lemma list_all_update:
  "list_all P xs \<Longrightarrow> P y \<Longrightarrow> list_all P (xs[i := y])"
  by (induction xs arbitrary: i) (auto split: nat.splits)

lemma place_bet_chips_nonneg: "0 \<le> chips (snd (place_bet p amount))"
  by (simp add: place_bet_def)

lemma chips_nonneg_apply_decision:
  assumes "chips_nonneg (game st)" and "i < length (players (game st))"
  shows "chips_nonneg (game (apply_decision d i st))"
proof (cases d)
  case (Pair a amount)
  have p: "0 \<le> chips (players (game st) ! i)"
    using assms by (simp add: chips_nonneg_def list_all_length)
  show ?thesis
    using assms(1) p
    by (cases a)
      (simp_all add: Pair apply_decision_def chips_nonneg_def Let_def place_bet_def
        fold_hand_def set_player_def list_all_update split: prod.splits)
qed

lemma chips_nonneg_take_turn:
  assumes "chips_nonneg (game st)" and "i < length (players (game st))"
  shows "chips_nonneg (game (take_turn pol i st))"
  using assms by (simp add: take_turn_def Let_def chips_nonneg_apply_decision split: prod.splits)

lemma betting_round_invariant:
  assumes step: "\<And>i st. P (game st) \<Longrightarrow> i < length (players (game st)) \<Longrightarrow> P (game (take_turn pol i st))"
    and "P g" and "betting_round n pol e g = Some (g', e')"
  shows "P g'"
proof (cases "length (active_betting_players g) \<le> 1")
  case True
  with assms show ?thesis by (simp add: betting_round_def)
next
  case False
  with assms(3) obtain st' where l: "betting_loop n pol (initial_round_state e g) = Some st'"
    and g': "game st' = g'"
    by (auto simp: betting_round_def)
  have "P (game st')"
    by (rule betting_loop_invariant [where P = "\<lambda>st. P (game st)", OF step _ _ l])
      (simp_all add: initial_round_state_def assms(2))
  with g' show ?thesis by simp
qed

text \<open>
  C2. \<open>place_bet\<close> leaves chips + current_bet of the player unchanged and leaves the
  chips non-negative. Consequently, whatever the players decide, a betting round (and
  every pass of it) leaves the sum over all players of chips + current_bet unchanged,
  and the pot grows by exactly what the players committed: the growth of their bets,
  which is the loss of their stacks.
\<close>

theorem chips_conserved:
  "chips (snd (place_bet p amount)) + current_bet (snd (place_bet p amount))
     = chips p + current_bet p
   \<and> 0 \<le> chips (snd (place_bet p amount))
   \<and> (betting_round fuel pol e g = Some (g', e') \<longrightarrow>
        total_chips g' + total_bets g' = total_chips g + total_bets g
      \<and> pot g' - pot g = total_bets g' - total_bets g
      \<and> pot g' - pot g = total_chips g - total_chips g'
      \<and> length (players g') = length (players g)
      \<and> (chips_nonneg g \<longrightarrow> chips_nonneg g'))
   \<and> ((\<forall>i\<in>set seats. i < length (players (game st))) \<longrightarrow>
        ledger (game (sweep_state (sweep pol seats st))) = ledger (game st))"
proof -
  have a: "chips (snd (place_bet p amount)) + current_bet (snd (place_bet p amount))
     = chips p + current_bet p"
    by (simp add: place_bet_def)
  have b: "0 \<le> chips (snd (place_bet p amount))"
    by (rule place_bet_chips_nonneg)
  have c: "ledger g' = ledger g" if r: "betting_round fuel pol e g = Some (g', e')"
    by (rule betting_round_invariant [where P = "\<lambda>x. ledger x = ledger g", OF _ _ r])
      (simp_all add: ledger_take_turn)
  have d: "chips_nonneg g'"
    if r: "betting_round fuel pol e g = Some (g', e')" and n: "chips_nonneg g"
    by (rule betting_round_invariant [where P = chips_nonneg, OF _ n r])
      (simp add: chips_nonneg_take_turn)
  have s: "ledger (game (sweep_state (sweep pol seats st))) = ledger (game st)"
    if "\<forall>i\<in>set seats. i < length (players (game st))"
    by (rule sweep_invariant [where P = "\<lambda>x. ledger (game x) = ledger (game st)", OF _ _ that])
      (simp_all add: ledger_take_turn)
  show ?thesis
    using a b c d s by (auto simp: ledger_def)
qed


lemma fresh_round:
  "betting_round 1 (make_decision no_human) () fresh_table = Some (fresh_table_after, ())"
  by code_simp

theorem chips_conserved_witness:
  "betting_round 1 (make_decision no_human) () fresh_table = Some (fresh_table_after, ())
   \<and> total_chips fresh_table_after + total_bets fresh_table_after = 3000
   \<and> pot fresh_table_after - pot fresh_table = 72
   \<and> total_chips fresh_table - total_chips fresh_table_after = 72
   \<and> chips_nonneg fresh_table_after"
proof -
  have t: "total_chips fresh_table + total_bets fresh_table = 3000"
    and n: "chips_nonneg fresh_table"
    by code_simp+
  have p: "pot fresh_table_after - pot fresh_table = 72"
    by code_simp
  show ?thesis
    using chips_conserved [of _ _ 1 "make_decision no_human" "()" fresh_table
        fresh_table_after "()" "[]"] fresh_round t n p
    by simp
qed

section \<open>Termination of the betting round\<close>

subsection \<open>The effect of one decision\<close>

lemma players_apply_decision:
  "i < length (players (game st)) \<Longrightarrow>
   players (game (apply_decision d i st)) =
     (players (game st))[i := new_player d (players (game st) ! i)]"
  by (cases d; cases "fst d")
    (simp_all add: apply_decision_def new_player_def set_player_def Let_def
      split: prod.splits)






lemma take_turn_eq:
  "take_turn pol i st =
     apply_decision
       (fst (pol (env st) i (players (game st) ! i) (game_current_bet (game st))
               (minimum_bet (game st))))
       i
       (st\<lparr>env := snd (pol (env st) i (players (game st) ! i) (game_current_bet (game st))
                          (minimum_bet (game st))),
           players_acted := insert i (players_acted st), round_had_action := True\<rparr>)"
  by (simp add: take_turn_def Let_def split: prod.splits)

















section \<open>The completion test of a pass\<close>






section \<open>The fold-out shortcut\<close>

lemma sweep_append:
  "sweep pol (pre @ rest) st =
     (case sweep pol pre st of Returned s \<Rightarrow> Returned s | Swept s \<Rightarrow> sweep pol rest s)"
  by (induction pre arbitrary: st) (simp_all add: Let_def)

lemma length_sweep:
  assumes "\<forall>i\<in>set seats. i < length (players (game st))"
  shows "length (players (game (sweep_state (sweep pol seats st)))) = length (players (game st))"
  by (rule sweep_invariant
      [where P = "\<lambda>s. length (players (game s)) = length (players (game st))", OF _ _ assms])
    (simp_all add: length_take_turn)

lemma length_filter_update:
  "length (filter P xs) \<le> Suc (length (filter P (xs[i := y])))"
  by (induction xs arbitrary: i) (auto split: nat.splits)

lemma not_folded_active_seats: "not_folded g = map (nth (players g)) (active_seats g)"
proof -
  have "not_folded g = filter (\<lambda>p. \<not> has_folded p) (map (nth (players g)) [0..<length (players g)])"
    by (simp add: not_folded_def map_nth)
  then show ?thesis
    by (simp add: filter_map active_seats_def comp_def)
qed

lemma active_seats_bound: "w \<in> set (active_seats g) \<Longrightarrow> w < length (players g)"
  by (simp add: active_seats_def)

lemma sweep_keeps_two:
  assumes "sweep pol seats st = Swept st'" and "2 \<le> length (not_folded (game st))"
  shows "2 \<le> length (not_folded (game st'))"
  using assms
  by (induction seats arbitrary: st) (auto simp: Let_def split: if_splits)

lemma sole_player_wins:
  assumes "active_seats g = [w]"
  shows "determine_winner g = Inr (award_pot g w)"
    and "chips (players (award_pot g w) ! w) = chips (players g ! w) + pot g"
    and "pot (award_pot g w) = pot g"
proof -
  have w: "w < length (players g)"
    using active_seats_bound [of w g] assms by simp
  show "determine_winner g = Inr (award_pot g w)"
    using assms by (simp add: determine_winner_def)
  show "chips (players (award_pot g w) ! w) = chips (players g ! w) + pot g"
    using w by (simp add: award_pot_def set_player_def)
  show "pot (award_pot g w) = pot g"
    by (simp add: award_pot_def set_player_def)
qed

text \<open>
  C5. Let a pass of the round, begun with at least two players who have not folded, have
  reached seat \<open>i\<close>, and let the player there take a turn after which at most one player
  has not folded. Then the round returns at once, with the very state that turn left:
  no later seat is visited, no further pass is made, and the pot is the pot after that
  turn. Exactly one player has then not folded, and \<open>determine_winner\<close> adds the whole
  pot to that player's chips.
\<close>

theorem fold_out_shortcut:
  assumes reach: "sweep pol pre (st0\<lparr>round_had_action := False\<rparr>) = Swept st"
    and seats: "pre @ i # rest = [0..<length (players (game st0))]"
    and active: "is_active (players (game st) ! i)"
    and need: "needs_to_act st i"
    and noskip: "\<not> (last_raiser st = Some i \<and> others_matched (game st) i)"
    and two0: "2 \<le> length (not_folded (game st0))"
    and out: "length (not_folded (game (take_turn pol i st))) \<le> 1"
  shows "betting_loop (Suc n) pol st0 = Some (take_turn pol i st)
       \<and> (\<exists>w. active_seats (game (take_turn pol i st)) = [w]
              \<and> determine_winner (game (take_turn pol i st))
                  = Inr (award_pot (game (take_turn pol i st)) w)
              \<and> chips (players (award_pot (game (take_turn pol i st)) w) ! w)
                  = chips (players (game (take_turn pol i st)) ! w)
                    + pot (game (take_turn pol i st)))"
proof -
  let ?st' = "take_turn pol i st"
  have two: "2 \<le> length (not_folded (game st))"
    using sweep_keeps_two [OF reach] two0 by simp
  have turn: "sweep pol (i # rest) st = Returned ?st'"
    using active need noskip out by (auto simp: is_active_def Let_def)
  have "sweep pol (pre @ i # rest) (st0\<lparr>round_had_action := False\<rparr>) =
      (case sweep pol pre (st0\<lparr>round_had_action := False\<rparr>) of
         Returned s \<Rightarrow> Returned s | Swept s \<Rightarrow> sweep pol (i # rest) s)"
    by (rule sweep_append)
  also have "\<dots> = sweep pol (i # rest) st"
    by (simp only: reach sweep_result.case)
  finally have "sweep pol (pre @ i # rest) (st0\<lparr>round_had_action := False\<rparr>) = Returned ?st'"
    by (simp only: turn)
  then have loop: "betting_loop (Suc n) pol st0 = Some ?st'"
    by (simp add: seats)
  have pre: "\<forall>k\<in>set pre. k < length (players (game (st0\<lparr>round_had_action := False\<rparr>)))"
  proof
    fix k assume "k \<in> set pre"
    then have "k \<in> set (pre @ i # rest)" by simp
    then show "k < length (players (game (st0\<lparr>round_had_action := False\<rparr>)))"
      unfolding seats by simp
  qed
  have len: "length (players (game st)) = length (players (game st0))"
    using length_sweep [OF pre, of pol] reach by simp
  have "i \<in> set (pre @ i # rest)" by simp
  then have i: "i < length (players (game st))"
    unfolding seats len by simp
  obtain p' where ps: "players (game ?st') = (players (game st))[i := p']"
    using i by (subst (asm) take_turn_eq) (simp add: players_apply_decision)
  have "length (not_folded (game st)) \<le> Suc (length (not_folded (game ?st')))"
    unfolding not_folded_def ps by (rule length_filter_update)
  with two out have "length (not_folded (game ?st')) = 1" by simp
  then have "length (active_seats (game ?st')) = 1"
    by (simp add: not_folded_active_seats)
  then obtain w where w: "active_seats (game ?st') = [w]"
    by (cases "active_seats (game ?st')") auto
  from loop w sole_player_wins(1,2) [OF w] show ?thesis by blast
qed

lemma duel_reach:
  "sweep (make_decision no_human) [0]
     ((initial_round_state () duel_table)\<lparr>round_had_action := False\<rparr>) = Swept duel_after_raise"
  by code_simp

theorem fold_out_shortcut_witness:
  "betting_loop 1 (make_decision no_human) (initial_round_state () duel_table)
     = Some (take_turn (make_decision no_human) 1 duel_after_raise)
   \<and> pot (game (take_turn (make_decision no_human) 1 duel_after_raise)) = 20
   \<and> active_seats (game (take_turn (make_decision no_human) 1 duel_after_raise)) = [0]
   \<and> determine_winner (game (take_turn (make_decision no_human) 1 duel_after_raise))
       = Inr (award_pot (game (take_turn (make_decision no_human) 1 duel_after_raise)) 0)"
proof -
  have seats: "[0] @ 1 # [] = [0..<length (players (game (initial_round_state () duel_table)))]"
    by code_simp
  have active: "is_active (players (game duel_after_raise) ! 1)"
    and need: "needs_to_act duel_after_raise 1"
    and noskip: "\<not> (last_raiser duel_after_raise = Some 1
                    \<and> others_matched (game duel_after_raise) 1)"
    and two: "2 \<le> length (not_folded (game (initial_round_state () duel_table)))"
    and out: "length (not_folded (game (take_turn (make_decision no_human) 1 duel_after_raise))) \<le> 1"
    by code_simp+
  have p: "pot (game (take_turn (make_decision no_human) 1 duel_after_raise)) = 20"
    and a: "active_seats (game (take_turn (make_decision no_human) 1 duel_after_raise)) = [0]"
    by code_simp+
  show ?thesis
    using fold_out_shortcut [OF duel_reach seats active need noskip two out, of 0] p a
    by simp
qed
section \<open>The hand-strength heuristic\<close>

lemma length_RANKS: "length RANKS = 13"
  by (simp add: RANKS_def)

lemma get_value_range: "0 \<le> get_value c \<and> get_value c \<le> 12"
  by (cases "rank c") (simp_all add: get_value_def RANKS_def)

lemma count_list_sort: "count_list (sort xs) x = count_list xs (x::int)"
  by (simp add: count_list_eq_length_filter filter_sort)

lemma desc_sorted: "sorted_wrt (\<ge>) (rev (sort (xs::int list)))"
  by (simp add: sorted_wrt_rev)

lemma desc_top:
  assumes "sorted_wrt (\<ge>) (a # b # zs)"
  shows "a = Max (set (a # b # zs))"
    and "(a = b) \<longleftrightarrow> 2 \<le> count_list (a # b # zs) (a::int)"
proof -
  from assms have ab: "b \<le> a" and za: "\<forall>z\<in>set zs. z \<le> a" and zb: "\<forall>z\<in>set zs. z \<le> b"
    by auto
  show "a = Max (set (a # b # zs))"
    using ab za by (intro Max_eqI [symmetric]) auto
  show "(a = b) \<longleftrightarrow> 2 \<le> count_list (a # b # zs) a"
  proof
    assume "a = b"
    then show "2 \<le> count_list (a # b # zs) a" by simp
  next
    assume c: "2 \<le> count_list (a # b # zs) a"
    show "a = b"
    proof (rule ccontr)
      assume ne: "a \<noteq> b"
      with ab have "b < a" by simp
      with zb have "a \<notin> set zs" by auto
      then have "count_list zs a = 0" by (simp add: count_list_0_iff)
      with ne c show False by simp
    qed
  qed
qed

text \<open>The head of the descending sort is the maximum, and the first two entries agree
  exactly when the maximum occurs at least twice.\<close>

lemma top_two:
  fixes xs :: "int list"
  assumes "2 \<le> length xs"
  shows "rev (sort xs) ! 0 = Max (set xs)"
    and "(rev (sort xs) ! 0 = rev (sort xs) ! 1) \<longleftrightarrow> 2 \<le> count_list xs (Max (set xs))"
proof -
  define ys where "ys = rev (sort xs)"
  have len: "length ys = length xs" by (simp add: ys_def)
  with assms obtain a b zs where ys: "ys = a # b # zs"
    by (cases ys; cases "tl ys") auto
  have s: "sorted_wrt (\<ge>) (a # b # zs)"
    using desc_sorted [of xs] by (simp add: ys_def [symmetric] ys)
  have set_eq: "set ys = set xs" by (simp add: ys_def)
  have cnt: "count_list ys x = count_list xs x" for x
    by (simp add: ys_def count_list_sort)
  have a: "a = Max (set xs)"
    using desc_top(1) [OF s] unfolding ys [symmetric] set_eq .
  have n0: "rev (sort xs) ! 0 = a" and n1: "rev (sort xs) ! 1 = b"
    by (simp_all add: ys_def [symmetric] ys)
  show "rev (sort xs) ! 0 = Max (set xs)"
    using a n0 by simp
  have "(a = b) \<longleftrightarrow> 2 \<le> count_list ys a"
    using desc_top(2) [OF s] unfolding ys [symmetric] .
  then have "(a = b) \<longleftrightarrow> 2 \<le> count_list xs a"
    by (simp only: cnt)
  then have "(rev (sort xs) ! 0 = rev (sort xs) ! 1) \<longleftrightarrow> 2 \<le> count_list xs a"
    by (simp only: n0 n1)
  then show "(rev (sort xs) ! 0 = rev (sort xs) ! 1) \<longleftrightarrow> 2 \<le> count_list xs (Max (set xs))"
    unfolding a [symmetric] .
qed

lemma top_value_range:
  assumes "hand p \<noteq> []"
  shows "0 \<le> top_value p \<and> top_value p \<le> 12"
proof -
  have "top_value p \<in> set (map get_value (hand p))"
    unfolding top_value_def using assms by (intro Max_in) auto
  then show ?thesis using get_value_range by auto
qed

text \<open>
  C8. The hand-strength heuristic returns exactly 0.5 for a hand of fewer than two cards;
  for a hand of two or more cards whose two highest card values are equal (the highest
  value occurs at least twice) it returns 0.7 + (top/13) * 0.3, and otherwise
  0.3 + (top/13) * 0.4, where top is the highest card value, between 0 and 12.
  A pair of aces gives 0.7 + (12/13) * 0.3 and ace-king gives 0.3 + (12/13) * 0.4.
\<close>

theorem hand_strength_heuristic:
  "evaluate_hand_strength p =
     (if length (hand p) < 2 then 1 / 2
      else if 2 \<le> count_list (map get_value (hand p)) (top_value p)
      then 7 / 10 + (of_int (top_value p) / 13) * (3 / 10)
      else 3 / 10 + (of_int (top_value p) / 13) * (4 / 10))
   \<and> (2 \<le> length (hand p) \<longrightarrow> 0 \<le> top_value p \<and> top_value p \<le> 12)
   \<and> evaluate_hand_strength (q\<lparr>hand := pair_of_aces\<rparr>) = 7 / 10 + (12 / 13) * (3 / 10)
   \<and> evaluate_hand_strength (q\<lparr>hand := ace_king\<rparr>) = 3 / 10 + (12 / 13) * (4 / 10)"
proof -
  have main: "evaluate_hand_strength p =
     (if length (hand p) < 2 then 1 / 2
      else if 2 \<le> count_list (map get_value (hand p)) (top_value p)
      then 7 / 10 + (of_int (top_value p) / 13) * (3 / 10)
      else 3 / 10 + (of_int (top_value p) / 13) * (4 / 10))" for p
  proof (cases "length (hand p) < 2")
    case True
    then show ?thesis by (simp add: evaluate_hand_strength_def)
  next
    case False
    then have l: "2 \<le> length (map get_value (hand p))" by simp
    show ?thesis
      using False top_two [OF l]
      by (simp add: evaluate_hand_strength_def Let_def length_RANKS top_value_def)
  qed
  have rng: "2 \<le> length (hand p) \<longrightarrow> 0 \<le> top_value p \<and> top_value p \<le> 12"
    using top_value_range [of p] by (cases "hand p") auto
  have aa: "evaluate_hand_strength (q\<lparr>hand := pair_of_aces\<rparr>) = 7 / 10 + (12 / 13) * (3 / 10)"
    by (simp add: example_defs evaluate_hand_strength_def get_value_def RANKS_def)
  have ak: "evaluate_hand_strength (q\<lparr>hand := ace_king\<rparr>) = 3 / 10 + (12 / 13) * (4 / 10)"
    by (simp add: example_defs evaluate_hand_strength_def get_value_def RANKS_def)
  from main rng aa ak show ?thesis by blast
qed

theorem hand_strength_heuristic_witness:
  "evaluate_hand_strength strong_player = 127 / 130
   \<and> top_value strong_player = 12
   \<and> evaluate_hand_strength (AIPlayer_init ''AI1'' 1000 (1 / 2)) = 1 / 2"
  using hand_strength_heuristic [of strong_player strong_player]
    hand_strength_heuristic [of "AIPlayer_init ''AI1'' 1000 (1 / 2)" strong_player]
  by (simp add: example_defs top_value_def get_value_def RANKS_def)

section \<open>The automated decision\<close>

lemma call_amount_nonneg: "0 \<le> call_amount p cb"
  by (simp add: call_amount_def)

text \<open>With a non-negative minimum bet and an aggression of at most 1 (the constructor
  clamps it), the fold rule and the raise rule cannot both apply.\<close>

lemma fold_rule_excluded:
  assumes mb: "0 \<le> min_bet" and ag: "aggression \<le> 1"
    and hs: "evaluate_hand_strength p > raise_threshold aggression"
    and ch: "chips p > call_amount p cb + min_bet"
  shows "\<not> (evaluate_hand_strength p < fold_threshold p cb \<and> call_amount p cb > 0)"
proof -
  have c0: "0 \<le> call_amount p cb" by (rule call_amount_nonneg)
  with mb ch have c1: "call_amount p cb < chips p" and pos: "0 < chips p" by simp_all
  then have m: "max (chips p) 1 = chips p" by simp
  have "(of_int (call_amount p cb) :: rat) < of_int (chips p)" using c1 by simp
  then have "bet_ratio p cb < 1"
    using pos by (simp add: bet_ratio_def m)
  then have ft: "fold_threshold p cb < 1 / 2" by (simp add: fold_threshold_def)
  have "6 / 10 \<le> raise_threshold aggression" using ag by (simp add: raise_threshold_def)
  with hs ft show ?thesis by simp
qed




text \<open>
  C9 (as amended). An AIPlayer with 50 chips facing a call amount of 100 (and a
  non-negative minimum bet) never raises: \<open>make_decision\<close> returns a fold, or a call that
  carries the full, unclamped call amount 100. The clamp to the 50 available chips is
  made by \<open>place_bet\<close>, which commits 50 and marks the player all-in.
\<close>

theorem short_stack_decision:
  assumes "chips p = 50" and "call_amount p cb = 100" and "0 \<le> min_bet"
  shows "(AIPlayer_make_decision aggression p cb min_bet = (Fold, 0)
          \<or> AIPlayer_make_decision aggression p cb min_bet = (Call, 100))
       \<and> fst (place_bet p 100) = 50
       \<and> chips (snd (place_bet p 100)) = 0
       \<and> is_all_in (snd (place_bet p 100))"
  using assms by (simp add: AIPlayer_make_decision_def place_bet_def)

theorem short_stack_decision_witness:
  "chips short_stack = 50 \<and> call_amount short_stack 100 = 100
   \<and> AIPlayer_make_decision (1 / 2) short_stack 100 10 = (Call, 100)
   \<and> fst (place_bet short_stack 100) = 50"
proof -
  have h1: "chips short_stack = 50" by (simp add: example_defs)
  have h2: "call_amount short_stack 100 = 100" by (simp add: example_defs call_amount_def)
  have nf: "AIPlayer_make_decision (1 / 2) short_stack 100 10 \<noteq> (Fold, 0)"
    by (simp add: example_defs ai_defs)
  show ?thesis
    using short_stack_decision [OF h1 h2, of 10 "1 / 2"] h1 h2 nf by simp
qed

text \<open>The claim as stated fails: with a pair of aces the decision is a call whose amount,
  100, exceeds the 50 chips of the player.\<close>

theorem short_stack_decision_counterexample:
  "chips short_stack = 50 \<and> call_amount short_stack 100 = 100
   \<and> AIPlayer_make_decision (1 / 2) short_stack 100 10 = (Call, 100)
   \<and> \<not> snd (AIPlayer_make_decision (1 / 2) short_stack 100 10) \<le> chips short_stack"
  by (simp add: example_defs ai_defs)

section \<open>The showdown\<close>

lemma max_card_value_top:
  assumes "hand p \<noteq> []"
  shows "max_card_value (hand p) = Inr (top_value p)"
proof (cases "hand p")
  case Nil
  with assms show ?thesis by simp
next
  case (Cons c cs)
  show ?thesis
    unfolding top_value_def Cons list.map max_card_value.simps Max.set_eq_fold
    by (rule refl)
qed

lemma top_value_nonneg: "hand p \<noteq> [] \<Longrightarrow> 0 \<le> top_value p"
  using top_value_range [of p] by simp

text \<open>
  The loop of the showdown over players who all hold cards: it returns, the best value
  is at least every value seen, and either nobody beat the incoming best, or the best
  player is the first one in the list to reach the final best value.
\<close>

lemma best_of_spec:
  assumes "\<forall>i\<in>set seats. hand (players g ! i) \<noteq> []"
  shows "\<exists>bp' bv'. best_of g seats (bp, bv) = Inr (bp', bv')
           \<and> bv \<le> bv'
           \<and> (\<forall>i\<in>set seats. top_value (players g ! i) \<le> bv')
           \<and> ((bp' = bp \<and> bv' = bv)
              \<or> (\<exists>pre w post. seats = pre @ w # post \<and> bp' = Some w
                    \<and> bv' = top_value (players g ! w) \<and> bv < bv'
                    \<and> (\<forall>j\<in>set pre. top_value (players g ! j) < bv')))"
  using assms
proof (induction seats arbitrary: bp bv)
  case Nil
  then show ?case by simp
next
  case (Cons i seats)
  let ?m = "top_value (players g ! i)"
  have mv: "max_card_value (hand (players g ! i)) = Inr ?m"
    using Cons.prems by (simp add: max_card_value_top)
  have rest: "\<forall>k\<in>set seats. hand (players g ! k) \<noteq> []" using Cons.prems by simp
  show ?case
  proof (cases "?m > bv")
    case True
    from Cons.IH [OF rest, of "Some i" ?m] obtain bp' bv' where
      r: "best_of g seats (Some i, ?m) = Inr (bp', bv')" and le: "?m \<le> bv'"
      and all: "\<forall>k\<in>set seats. top_value (players g ! k) \<le> bv'"
      and alt: "(bp' = Some i \<and> bv' = ?m)
          \<or> (\<exists>pre w post. seats = pre @ w # post \<and> bp' = Some w
                \<and> bv' = top_value (players g ! w) \<and> ?m < bv'
                \<and> (\<forall>j\<in>set pre. top_value (players g ! j) < bv'))"
      by blast
    have eq: "best_of g (i # seats) (bp, bv) = Inr (bp', bv')"
      using True mv r by simp
    from alt have "\<exists>pre w post. i # seats = pre @ w # post \<and> bp' = Some w
                \<and> bv' = top_value (players g ! w) \<and> bv < bv'
                \<and> (\<forall>j\<in>set pre. top_value (players g ! j) < bv')"
    proof
      assume "bp' = Some i \<and> bv' = ?m"
      with True have "i # seats = [] @ i # seats \<and> bp' = Some i
          \<and> bv' = top_value (players g ! i) \<and> bv < bv'
          \<and> (\<forall>j\<in>set []. top_value (players g ! j) < bv')"
        by simp
      then show ?thesis by blast
    next
      assume "\<exists>pre w post. seats = pre @ w # post \<and> bp' = Some w
                \<and> bv' = top_value (players g ! w) \<and> ?m < bv'
                \<and> (\<forall>j\<in>set pre. top_value (players g ! j) < bv')"
      then obtain pre w post where s: "seats = pre @ w # post" and b: "bp' = Some w"
        and v: "bv' = top_value (players g ! w)" and lt: "?m < bv'"
        and p: "\<forall>j\<in>set pre. top_value (players g ! j) < bv'"
        by blast
      from s b v lt p True have "i # seats = (i # pre) @ w # post \<and> bp' = Some w
          \<and> bv' = top_value (players g ! w) \<and> bv < bv'
          \<and> (\<forall>j\<in>set (i # pre). top_value (players g ! j) < bv')"
        by simp
      then show ?thesis by blast
    qed
    with eq le all True show ?thesis by auto
  next
    case False
    from Cons.IH [OF rest, of bp bv] obtain bp' bv' where
      r: "best_of g seats (bp, bv) = Inr (bp', bv')" and le: "bv \<le> bv'"
      and all: "\<forall>k\<in>set seats. top_value (players g ! k) \<le> bv'"
      and alt: "(bp' = bp \<and> bv' = bv)
          \<or> (\<exists>pre w post. seats = pre @ w # post \<and> bp' = Some w
                \<and> bv' = top_value (players g ! w) \<and> bv < bv'
                \<and> (\<forall>j\<in>set pre. top_value (players g ! j) < bv'))"
      by blast
    have eq: "best_of g (i # seats) (bp, bv) = Inr (bp', bv')"
      using False mv r by simp
    from alt have "(bp' = bp \<and> bv' = bv)
          \<or> (\<exists>pre w post. i # seats = pre @ w # post \<and> bp' = Some w
                \<and> bv' = top_value (players g ! w) \<and> bv < bv'
                \<and> (\<forall>j\<in>set pre. top_value (players g ! j) < bv'))"
    proof
      assume "bp' = bp \<and> bv' = bv"
      then show ?thesis by simp
    next
      assume "\<exists>pre w post. seats = pre @ w # post \<and> bp' = Some w
                \<and> bv' = top_value (players g ! w) \<and> bv < bv'
                \<and> (\<forall>j\<in>set pre. top_value (players g ! j) < bv')"
      then obtain pre w post where s: "seats = pre @ w # post" and b: "bp' = Some w"
        and v: "bv' = top_value (players g ! w)" and lt: "bv < bv'"
        and p: "\<forall>j\<in>set pre. top_value (players g ! j) < bv'"
        by blast
      from s b v lt p False have "i # seats = (i # pre) @ w # post \<and> bp' = Some w
          \<and> bv' = top_value (players g ! w) \<and> bv < bv'
          \<and> (\<forall>j\<in>set (i # pre). top_value (players g ! j) < bv')"
        by simp
      then show ?thesis by blast
    qed
    with eq le all False show ?thesis by auto
  qed
qed

lemma best_of_error:
  assumes "i \<in> set seats" and "hand (players g ! i) = []"
  shows "best_of g seats acc = Inl ValueError"
  using assms(1)
proof (induction seats arbitrary: acc)
  case Nil
  then show ?case by simp
next
  case (Cons k seats)
  obtain bp bv where acc: "acc = (bp, bv)" by (cases acc)
  show ?case
  proof (cases "hand (players g ! k)")
    case Nil
    then show ?thesis by (simp add: acc)
  next
    case (Cons c cs)
    with assms(2) have "k \<noteq> i" by auto
    with Cons.prems have "i \<in> set seats" by simp
    from Cons.IH [OF this] Cons show ?thesis by (simp add: acc)
  qed
qed

lemma sorted_active_seats: "sorted_wrt (<) (active_seats g)"
  unfolding active_seats_def by (rule sorted_wrt_filter) simp

text \<open>The showdown among two or more players who all hold cards.\<close>

lemma showdown_winner:
  assumes cards: "\<forall>i\<in>set (active_seats g). hand (players g ! i) \<noteq> []"
    and two: "length (active_seats g) \<noteq> 1" and some: "active_seats g \<noteq> []"
  shows "\<exists>w\<in>set (active_seats g). determine_winner g = Inr (award_pot g w)
      \<and> (\<forall>j\<in>set (active_seats g). top_value (players g ! j) \<le> top_value (players g ! w))
      \<and> (\<forall>j\<in>set (active_seats g). j < w \<longrightarrow>
            top_value (players g ! j) < top_value (players g ! w))"
proof -
  let ?seats = "active_seats g"
  from best_of_spec [OF cards, of None "- 1"] obtain bp' bv' where
    r: "best_of g ?seats (None, - 1) = Inr (bp', bv')"
    and all: "\<forall>i\<in>set ?seats. top_value (players g ! i) \<le> bv'"
    and alt: "(bp' = None \<and> bv' = - 1)
        \<or> (\<exists>pre w post. ?seats = pre @ w # post \<and> bp' = Some w
              \<and> bv' = top_value (players g ! w) \<and> - 1 < bv'
              \<and> (\<forall>j\<in>set pre. top_value (players g ! j) < bv'))"
    by blast
  from some obtain i where i: "i \<in> set ?seats" by (cases ?seats) auto
  with cards all have "0 \<le> bv'"
    using top_value_nonneg [of "players g ! i"] by fastforce
  with alt obtain pre w post where s: "?seats = pre @ w # post" and b: "bp' = Some w"
    and v: "bv' = top_value (players g ! w)"
    and p: "\<forall>j\<in>set pre. top_value (players g ! j) < bv'"
    by auto
  have w: "w \<in> set ?seats" by (simp add: s)
  have dw: "determine_winner g = Inr (award_pot g w)"
    using two r b by (simp add: determine_winner_def)
  have earlier: "j \<in> set pre" if "j \<in> set ?seats" and "j < w" for j
  proof -
    have "sorted_wrt (<) (pre @ w # post)"
      using sorted_active_seats [of g] by (simp add: s)
    then have "\<forall>k\<in>set post. w < k" by (simp add: sorted_wrt_append)
    with that show ?thesis by (auto simp: s)
  qed
  show ?thesis
    using w dw all p earlier v by blast
qed


lemma award_pot_others: "j \<noteq> w \<Longrightarrow> players (award_pot g w) ! j = players g ! j"
  by (simp add: award_pot_def set_player_def)

lemma award_pot_winner:
  "w \<in> set (active_seats g) \<Longrightarrow>
   chips (players (award_pot g w) ! w) = chips (players g ! w) + pot g"
  using active_seats_bound [of w g] by (simp add: award_pot_def set_player_def)

text \<open>
  C6 (as amended). Given at least one player who has not folded, and, when more than one
  is left, that each of them holds at least one card: if exactly one player is left, that
  player's chips grow by the whole pot; otherwise the winner is the first player in
  seating order holding the highest maximum card value (every earlier player's maximum
  is strictly lower, nobody's is higher, so a tie goes to the earlier seat and the pot is
  never split), and the winner's chips grow by the whole pot. Nobody else changes.
\<close>

theorem determine_winner_awards_pot:
  assumes "active_seats g \<noteq> []"
    and "length (active_seats g) \<noteq> 1 \<longrightarrow>
           (\<forall>i\<in>set (active_seats g). hand (players g ! i) \<noteq> [])"
  shows "\<exists>w\<in>set (active_seats g).
           determine_winner g = Inr (award_pot g w)
         \<and> chips (players (award_pot g w) ! w) = chips (players g ! w) + pot g
         \<and> (\<forall>j. j \<noteq> w \<longrightarrow> players (award_pot g w) ! j = players g ! j)
         \<and> (length (active_seats g) \<noteq> 1 \<longrightarrow>
              (\<forall>j\<in>set (active_seats g).
                 top_value (players g ! j) \<le> top_value (players g ! w))
            \<and> (\<forall>j\<in>set (active_seats g). j < w \<longrightarrow>
                 top_value (players g ! j) < top_value (players g ! w)))"
proof (cases "length (active_seats g) = 1")
  case True
  then obtain w where w: "active_seats g = [w]"
    by (cases "active_seats g") auto
  then have "w \<in> set (active_seats g)" by simp
  with True sole_player_wins [OF w] award_pot_others [of _ w g] show ?thesis
    by blast
next
  case False
  with assms(2) have cards: "\<forall>i\<in>set (active_seats g). hand (players g ! i) \<noteq> []"
    by simp
  from showdown_winner [OF cards False assms(1)] obtain w where
    w: "w \<in> set (active_seats g)" and dw: "determine_winner g = Inr (award_pot g w)"
    and le: "\<forall>j\<in>set (active_seats g). top_value (players g ! j) \<le> top_value (players g ! w)"
    and lt: "\<forall>j\<in>set (active_seats g). j < w \<longrightarrow>
            top_value (players g ! j) < top_value (players g ! w)"
    by blast
  from w dw le lt award_pot_winner [OF w] award_pot_others [of _ w g] show ?thesis
    by blast
qed

theorem determine_winner_awards_pot_witness:
  "active_seats fresh_table_after = [0, 1, 2]
   \<and> determine_winner fresh_table_after = Inr (award_pot fresh_table_after 0)
   \<and> chips (players (award_pot fresh_table_after 0) ! 0) = 976 + 72
   \<and> top_value (players fresh_table_after ! 0) = 12
   \<and> top_value (players fresh_table_after ! 2) = 12"
proof -
  have a: "active_seats fresh_table_after = [0, 1, 2]" by code_simp
  have h1: "active_seats fresh_table_after \<noteq> []" by (simp add: a)
  have h2: "length (active_seats fresh_table_after) \<noteq> 1 \<longrightarrow>
      (\<forall>i\<in>set (active_seats fresh_table_after). hand (players fresh_table_after ! i) \<noteq> [])"
    unfolding a by (simp add: fresh_table_after_def table_defs example_defs)
  have d: "determine_winner fresh_table_after = Inr (award_pot fresh_table_after 0)"
    by code_simp
  have c: "chips (players (award_pot fresh_table_after 0) ! 0) = 976 + 72"
    by code_simp
  have t: "top_value (players fresh_table_after ! 0) = 12"
    "top_value (players fresh_table_after ! 2) = 12"
    by (simp_all add: top_value_def fresh_table_after_def table_defs example_defs
        get_value_def RANKS_def)
  show ?thesis
    using determine_winner_awards_pot [OF h1 h2] a d c t by simp
qed

text \<open>The claim as stated, for any players who have not folded, fails when two of them
  hold no cards: the maximum of an empty hand raises \<open>ValueError\<close> and nobody is paid.\<close>

theorem determine_winner_no_cards_counterexample:
  "active_seats no_cards_table = [0, 1]
   \<and> determine_winner no_cards_table = Inl ValueError"
  by code_simp

text \<open>
  C10. When two or more players have not folded, \<open>determine_winner\<close> needs every one of
  them to hold a card: then the empty-hand error cannot arise and a winner is selected,
  and if one of them holds no card the call ends in \<open>ValueError\<close>. When a single player
  is left, no cards are needed: that player receives the pot, even with an empty hand.
\<close>

theorem determine_winner_precondition:
  "(2 \<le> length (active_seats g)
      \<and> (\<forall>i\<in>set (active_seats g). hand (players g ! i) \<noteq> [])
      \<longrightarrow> (\<exists>w\<in>set (active_seats g). determine_winner g = Inr (award_pot g w)))
   \<and> (2 \<le> length (active_seats g)
      \<and> (\<exists>i\<in>set (active_seats g). hand (players g ! i) = [])
      \<longrightarrow> determine_winner g = Inl ValueError)
   \<and> (active_seats g = [w]
      \<longrightarrow> determine_winner g = Inr (award_pot g w)
        \<and> chips (players (award_pot g w) ! w) = chips (players g ! w) + pot g)"
proof (intro conjI impI)
  assume a: "2 \<le> length (active_seats g)
      \<and> (\<forall>i\<in>set (active_seats g). hand (players g ! i) \<noteq> [])"
  then have "length (active_seats g) \<noteq> 1" and "active_seats g \<noteq> []" by auto
  with a showdown_winner [of g] show "\<exists>w\<in>set (active_seats g).
      determine_winner g = Inr (award_pot g w)"
    by blast
next
  assume a: "2 \<le> length (active_seats g)
      \<and> (\<exists>i\<in>set (active_seats g). hand (players g ! i) = [])"
  then obtain i where "i \<in> set (active_seats g)" and "hand (players g ! i) = []" by blast
  then have "best_of g (active_seats g) (None, - 1) = Inl ValueError"
    by (rule best_of_error)
  with a show "determine_winner g = Inl ValueError"
    by (simp add: determine_winner_def)
next
  assume "active_seats g = [w]"
  then show "determine_winner g = Inr (award_pot g w)"
    and "chips (players (award_pot g w) ! w) = chips (players g ! w) + pot g"
    by (rule sole_player_wins)+
qed

theorem determine_winner_precondition_witness:
  "active_seats last_standing_table = [0]
   \<and> hand (players last_standing_table ! 0) = []
   \<and> determine_winner last_standing_table = Inr (award_pot last_standing_table 0)
   \<and> chips (players (award_pot last_standing_table 0) ! 0) = 1100
   \<and> determine_winner no_cards_table = Inl ValueError
   \<and> (\<exists>w. determine_winner fresh_table = Inr (award_pot fresh_table w))"
proof -
  have a: "active_seats last_standing_table = [0]"
    and h: "hand (players last_standing_table ! 0) = []"
    and c: "chips (players last_standing_table ! 0) + pot last_standing_table = 1100"
    by code_simp+
  have n: "2 \<le> length (active_seats no_cards_table)
      \<and> (\<exists>i\<in>set (active_seats no_cards_table). hand (players no_cards_table ! i) = [])"
    by code_simp
  have f: "2 \<le> length (active_seats fresh_table)
      \<and> (\<forall>i\<in>set (active_seats fresh_table). hand (players fresh_table ! i) \<noteq> [])"
    by code_simp
  show ?thesis
    using determine_winner_precondition [of last_standing_table 0]
      determine_winner_precondition [of no_cards_table 0]
      determine_winner_precondition [of fresh_table 0] a h c n f
    by auto
qed

end
